theory Spec2Isabelle
  imports Main "HOL-Library.Sublist"
begin

section \<open>Frontend permissions (utils/permissions.ts)\<close>

text \<open>
  \<^verbatim>\<open>export type UserRole = 'admin' | 'user' | 'field' | 'onsite'\<close>.
  A parameter of type \<^verbatim>\<open>UserRole | undefined\<close> is a \<open>UserRole option\<close>, with
  \<open>None\<close> for \<^verbatim>\<open>undefined\<close>; every role is a non-empty string, so
  \<^verbatim>\<open>!userRole\<close> holds exactly for \<^verbatim>\<open>undefined\<close>.
\<close>

datatype UserRole = Admin | User | Field | Onsite

text \<open>The parameter \<^verbatim>\<open>requiredRole: UserRole | UserRole[]\<close>.\<close>

datatype RequiredRole = OneRole UserRole | RoleArray "UserRole list"

text \<open>The only exception the two functions can raise.\<close>

datatype js_error = TypeError

definition hasPermission :: "UserRole option \<Rightarrow> RequiredRole \<Rightarrow> bool" where
  "hasPermission userRole requiredRole =
     (case userRole of
        None \<Rightarrow> False
      | Some r \<Rightarrow>
          if r = Admin then True
          else (case requiredRole of
                  RoleArray rs \<Rightarrow> r \<in> set rs
                | OneRole q \<Rightarrow> r = q))"

text \<open>
  The object literal \<^verbatim>\<open>permissions\<close> of \<^verbatim>\<open>canAccess\<close>: its own properties, in
  the order of the source.
\<close>

definition permissions :: "(string \<times> UserRole list) list" where
  "permissions =
     [(''upload'', [User, Field, Admin]),
      (''gallery'', [User, Field, Onsite, Admin]),
      (''edit'', [Onsite, Admin]),
      (''verify'', [Onsite, Admin]),
      (''user-management'', [Admin]),
      (''audit-logs'', [Admin])]"

text \<open>
  \<^verbatim>\<open>permissions[feature]\<close> also finds what an object literal inherits from
  \<^verbatim>\<open>Object.prototype\<close>. Each of these is a function or an object: truthy, so
  \<^verbatim>\<open>|| []\<close> keeps it, and without a method \<^verbatim>\<open>includes\<close>, so the call on the
  next line raises a TypeError.
\<close>

definition object_prototype_keys :: "string list" where
  "object_prototype_keys =
     [''constructor'', ''__proto__'', ''hasOwnProperty'', ''isPrototypeOf'',
      ''propertyIsEnumerable'', ''toLocaleString'', ''toString'', ''valueOf'',
      ''__defineGetter__'', ''__defineSetter__'', ''__lookupGetter__'',
      ''__lookupSetter__'']"

definition canAccess :: "UserRole option \<Rightarrow> string \<Rightarrow> js_error + bool" where
  "canAccess userRole feature =
     (case userRole of
        None \<Rightarrow> Inr False
      | Some r \<Rightarrow>
          if r = Admin then Inr True
          else (case map_of permissions feature of
                  Some allowedRoles \<Rightarrow> Inr (r \<in> set allowedRoles)
                | None \<Rightarrow>
                    if feature \<in> set object_prototype_keys then Inl TypeError
                    else Inr (r \<in> set ([] :: UserRole list))))"

section \<open>Tag input (ArtifactModal.tsx and the Tauri command normalize\_tags)\<close>

text \<open>
  A text is the list of its characters, each the number of its code point: for the
  Rust command the Unicode scalar values of the \<^verbatim>\<open>String\<close>, for the React editor
  the UTF-16 code units of the string (the comma and every whitespace character are
  one unit each, and no half of a surrogate pair is one of them). Every number is
  allowed, so the texts of the model include every Unicode text.
\<close>

type_synonym code_point = nat

type_synonym utext = "code_point list"

text \<open>
  Both \<^verbatim>\<open>tagsStr.split(',')\<close> of the React editor and \<^verbatim>\<open>input.split(',')\<close> of the
  Rust command cut the text at every comma (U+002C) and keep empty pieces; the
  empty text gives one empty piece.
\<close>

fun split_comma :: "utext \<Rightarrow> utext list" where
  "split_comma [] = [[]]"
| "split_comma (c # cs) =
     (if c = 0x2C then [] # split_comma cs
      else (case split_comma cs of
              [] \<Rightarrow> [[c]]
            | p # ps \<Rightarrow> (c # p) # ps))"

text \<open>
  What \<^verbatim>\<open>String.prototype.trim\<close> strips: WhiteSpace of ECMAScript (TAB, VT, FF, SP,
  NBSP, ZWNBSP and the space separators U+1680, U+2000 to U+200A, U+202F, U+205F,
  U+3000) and LineTerminator (LF, CR, U+2028, U+2029).
\<close>

definition js_whitespace :: "code_point \<Rightarrow> bool" where
  "js_whitespace c =
     (c \<in> set [0x9, 0xB, 0xC, 0x20, 0xA0, 0xFEFF,
                0x1680, 0x202F, 0x205F, 0x3000,
                0xA, 0xD, 0x2028, 0x2029]
      \<or> (0x2000 \<le> c \<and> c \<le> 0x200A))"

text \<open>
  What Rust's \<^verbatim>\<open>str::trim\<close> strips: the characters with the property White\_Space
  (\<^verbatim>\<open>char::is_whitespace\<close>). It differs from the set above in U+0085, which only Rust
  strips, and U+FEFF, which only JavaScript strips.
\<close>

definition rust_whitespace :: "code_point \<Rightarrow> bool" where
  "rust_whitespace c =
     ((0x9 \<le> c \<and> c \<le> 0xD)
      \<or> c \<in> set [0x20, 0x85, 0xA0, 0x1680, 0x2028, 0x2029, 0x202F, 0x205F, 0x3000]
      \<or> (0x2000 \<le> c \<and> c \<le> 0x200A))"

text \<open>\<^verbatim>\<open>trim\<close>: the whitespace at the start and at the end is dropped.\<close>

definition trim_by :: "(code_point \<Rightarrow> bool) \<Rightarrow> utext \<Rightarrow> utext" where
  "trim_by ws s = rev (dropWhile ws (rev (dropWhile ws s)))"

text \<open>
  The \<^verbatim>\<open>onChange\<close> handler of the tag editor: the value it passes to
  \<^verbatim>\<open>setEditTags\<close>,
  \<^verbatim>\<open>tagsStr.split(',').map(t => t.trim()).filter(t => t.length > 0)\<close>.
\<close>

definition onChange_editTags :: "utext \<Rightarrow> utext list" where
  "onChange_editTags tagsStr =
     filter (\<lambda>t. length t > 0) (map (trim_by js_whitespace) (split_comma tagsStr))"

text \<open>
  \<^verbatim>\<open>input.split(',').map(|s| s.trim().to_lowercase()).filter(|s| !s.is_empty()).collect()\<close>

  \<^verbatim>\<open>str::to_lowercase\<close> is the standard library's: it follows the case tables of
  Unicode, may change the length of a text (U+0130 becomes two characters) and
  looks at the context (the final sigma). The tables are no part of the repository,
  so the function is a parameter of the command, from texts to texts.
\<close>

definition normalize_tags :: "(utext \<Rightarrow> utext) \<Rightarrow> utext \<Rightarrow> utext list" where
  "normalize_tags to_lowercase input =
     filter (\<lambda>s. \<not> (s = []))
       (map (\<lambda>s. to_lowercase (trim_by rust_whitespace s)) (split_comma input))"

text \<open>
  What the theorem about \<open>normalize_tags\<close> asks of the library's \<^verbatim>\<open>to_lowercase\<close>:
  only the empty text becomes the empty text; a text that does not start (end) with
  whitespace does not start (end) with whitespace in lower case; and a text in lower
  case stays as it is. Unicode gives no whitespace character a case mapping and
  maps no character to whitespace.
\<close>

definition to_lowercase_contract :: "(utext \<Rightarrow> utext) \<Rightarrow> bool" where
  "to_lowercase_contract to_lowercase =
     ((\<forall>s. (to_lowercase s = []) = (s = []))
      \<and> (\<forall>s. s \<noteq> [] \<and> \<not> rust_whitespace (hd s) \<longrightarrow> \<not> rust_whitespace (hd (to_lowercase s)))
      \<and> (\<forall>s. s \<noteq> [] \<and> \<not> rust_whitespace (last s) \<longrightarrow> \<not> rust_whitespace (last (to_lowercase s)))
      \<and> (\<forall>s. to_lowercase (to_lowercase s) = to_lowercase s))"

text \<open>
  A function that meets these conditions, for the examples: the lower case of
  A to Z, of U+00C0 to U+00DE (without the multiplication sign U+00D7) and of
  U+0130, which becomes the two characters U+0069 U+0307. Every other character
  is left as it is, which for capitals beyond these is not what Rust does.
\<close>

definition lower_code :: "code_point \<Rightarrow> utext" where
  "lower_code c =
     (if c = 0x130 then [0x69, 0x307]
      else if (0x41 \<le> c \<and> c \<le> 0x5A) \<or> (0xC0 \<le> c \<and> c \<le> 0xDE \<and> c \<noteq> 0xD7)
      then [c + 0x20]
      else [c])"

definition sample_to_lowercase :: "utext \<Rightarrow> utext" where
  "sample_to_lowercase s = concat (map lower_code s)"

text \<open>The code points of a text written in ASCII, for the examples.\<close>

definition codes :: "string \<Rightarrow> utext" where
  "codes s = map of_char s"

section \<open>Readiness polling (setup-ollama.ps1)\<close>

text \<open>
  The constants of the script: \<^verbatim>\<open>$maxRetries = 30\<close>, \<^verbatim>\<open>Start-Sleep -Seconds 2\<close>
  between probes, \<^verbatim>\<open>-TimeoutSec 2\<close> on each probe and \<^verbatim>\<open>Start-Sleep -Seconds 5\<close>
  before the first. Time is counted in milliseconds.
\<close>

record polling_config =
  maxRetries :: nat
  interval :: nat
  probe_timeout :: nat
  initial_delay :: nat

definition script_config :: polling_config where
  "script_config =
     \<lparr>maxRetries = 30, interval = 2000, probe_timeout = 2000, initial_delay = 5000\<rparr>"

text \<open>
  What the dependent does with one request: after \<open>latency\<close> it answers with a status
  code, or (\<open>None\<close>) the connection fails then.
\<close>

record reply =
  latency :: nat
  status :: "nat option"

text \<open>
  \<^verbatim>\<open>Invoke-WebRequest -TimeoutSec t\<close>: the time the call takes and what it gives. A
  request still unanswered after \<open>t\<close> is given up; that and a failed connection end
  in the \<^verbatim>\<open>catch\<close> block (or, silenced, in an empty \<^verbatim>\<open>$response\<close>), which the loop
  treats as it treats a status other than 200.
\<close>

datatype probe_outcome = StatusCode nat | Thrown

definition Invoke_WebRequest :: "nat \<Rightarrow> reply \<Rightarrow> nat \<times> probe_outcome" where
  "Invoke_WebRequest timeoutSec r =
     (if timeoutSec < latency r then (timeoutSec, Thrown)
      else (case status r of
              None \<Rightarrow> (latency r, Thrown)
            | Some code \<Rightarrow> (latency r, StatusCode code)))"

text \<open>
  The variables of the loop, with two counters the script does not keep: the time
  that has passed (\<open>clock\<close>) and the number of probes sent (\<open>probes\<close>).
\<close>

record poll_state =
  retryCount :: nat
  ollamaReady :: bool
  clock :: nat
  probes :: nat

text \<open>
  \<^verbatim>\<open>while ($retryCount -lt $maxRetries) { ... }\<close>: a probe that answers 200 sets
  \<^verbatim>\<open>$ollamaReady\<close> and leaves the loop at once (\<^verbatim>\<open>break\<close>); after any other probe
  the script sleeps for the interval and counts the retry.
\<close>

function poll_loop :: "polling_config \<Rightarrow> (nat \<Rightarrow> reply) \<Rightarrow> poll_state \<Rightarrow> poll_state" where
  "poll_loop cfg dependent s =
     (if retryCount s < maxRetries cfg then
        (case Invoke_WebRequest (probe_timeout cfg) (dependent (probes s)) of
           (elapsed, response) \<Rightarrow>
             if response = StatusCode 200
             then s\<lparr>ollamaReady := True, clock := clock s + elapsed, probes := probes s + 1\<rparr>
             else poll_loop cfg dependent
                    (s\<lparr>clock := clock s + elapsed + interval cfg,
                       probes := probes s + 1,
                       retryCount := retryCount s + 1\<rparr>))
      else s)"
  by pat_completeness auto
termination
  by (relation "measure (\<lambda>(cfg, dependent, s). maxRetries cfg - retryCount s)") auto

text \<open>
  The wait as a whole: the first sleep, the loop, and the test after it.
  \<open>Failed\<close> is the branch \<^verbatim>\<open>if (-not $ollamaReady) { ...; exit 1 }\<close>, \<open>Ready\<close> the
  script going on.
\<close>

datatype lifecycle = Ready | Failed

definition wait_for_ollama :: "polling_config \<Rightarrow> (nat \<Rightarrow> reply) \<Rightarrow> lifecycle \<times> poll_state" where
  "wait_for_ollama cfg dependent =
     (let s = poll_loop cfg dependent
                \<lparr>retryCount = 0, ollamaReady = False, clock = initial_delay cfg, probes = 0\<rparr>
      in (if \<not> ollamaReady s then Failed else Ready, s))"

section \<open>Shutdown cleanup (run.ps1, the finally block)\<close>

text \<open>
  A running process as \<^verbatim>\<open>Get-Process\<close> lists it: its \<^verbatim>\<open>Id\<close>, and what
  \<^verbatim>\<open>$_.Parent.Id\<close> gives for it when the block reads it (\<open>None\<close> when no parent
  is reported). A child goes on reporting its parent after the parent has been
  stopped: the reading under which the block reaches the most processes.
\<close>

record process =
  pid :: nat
  Parent_Id :: "nat option"

text \<open>
  How a process is asked to stop. The script only ever calls
  \<^verbatim>\<open>Stop-Process ... -Force\<close>; \<open>Graceful\<close> is the request it never sends.
\<close>

datatype signal = Graceful | Forced

text \<open>The processes that run, and the stop requests sent so far, oldest first.\<close>

record system =
  running :: "process list"
  sent :: "(signal \<times> nat) list"

text \<open>
  \<^verbatim>\<open>Stop-Process -Id i -Force -ErrorAction SilentlyContinue\<close>: the process with
  that id is gone afterwards; where there is none the error is silenced.
\<close>

definition Stop_Process_Force :: "nat \<Rightarrow> system \<Rightarrow> system" where
  "Stop_Process_Force i sys =
     \<lparr>running = filter (\<lambda>p. pid p \<noteq> i) (running sys),
      sent = sent sys @ [(Forced, i)]\<rparr>"

text \<open>
  \<^verbatim>\<open>Get-Process | Where-Object { $_.Parent.Id -eq i } | Stop-Process -Force\<close>
\<close>

definition stop_children :: "nat \<Rightarrow> system \<Rightarrow> system" where
  "stop_children i sys =
     (let children = filter (\<lambda>p. Parent_Id p = Some i) (running sys)
      in \<lparr>running = filter (\<lambda>p. p \<notin> set children) (running sys),
          sent = sent sys @ map (\<lambda>p. (Forced, pid p)) children\<rparr>)"

text \<open>
  One \<^verbatim>\<open>if ($startX -and $xProcess) { ... }\<close> of the block: \<open>handle\<close> is the process
  \<^verbatim>\<open>Start-Process -PassThru\<close> returned, \<open>None\<close> when the variable was never set.
\<close>

definition stop_server :: "bool \<Rightarrow> nat option \<Rightarrow> system \<Rightarrow> system" where
  "stop_server started handle sys =
     (case handle of
        None \<Rightarrow> sys
      | Some i \<Rightarrow>
          if started then stop_children i (Stop_Process_Force i sys) else sys)"

text \<open>The \<^verbatim>\<open>finally\<close> block: the backend first, then the frontend.\<close>

definition cleanup :: "bool \<Rightarrow> nat option \<Rightarrow> bool \<Rightarrow> nat option \<Rightarrow> system \<Rightarrow> system" where
  "cleanup startBackend backendProcess startFrontend frontendProcess sys =
     stop_server startFrontend frontendProcess
       (stop_server startBackend backendProcess sys)"

text \<open>
  \<open>spawned tbl r i\<close>: in the table \<open>tbl\<close>, the process \<open>i\<close> was started by \<open>r\<close>,
  directly or through other processes.
\<close>

inductive spawned :: "process list \<Rightarrow> nat \<Rightarrow> nat \<Rightarrow> bool" for tbl :: "process list" where
  direct: "p \<in> set tbl \<Longrightarrow> Parent_Id p = Some r \<Longrightarrow> spawned tbl r (pid p)"
| transitive:
    "spawned tbl r q \<Longrightarrow> p \<in> set tbl \<Longrightarrow> Parent_Id p = Some q \<Longrightarrow> spawned tbl r (pid p)"

text \<open>
  The processes one \<open>stop_server\<close> reaches: the launched process and those that
  report it as their parent.
\<close>

definition hit :: "bool \<Rightarrow> nat option \<Rightarrow> process \<Rightarrow> bool" where
  "hit started handle p =
     (case handle of
        None \<Rightarrow> False
      | Some i \<Rightarrow> started \<and> (pid p = i \<or> Parent_Id p = Some i))"

text \<open>
  A tree three deep, as \<^verbatim>\<open>cargo tauri dev\<close> builds one: cargo (100) starts a
  tool (200), which starts the application (300).
\<close>

definition cargo_tree :: "process list" where
  "cargo_tree =
     [\<lparr>pid = 100, Parent_Id = None\<rparr>,
      \<lparr>pid = 200, Parent_Id = Some 100\<rparr>,
      \<lparr>pid = 300, Parent_Id = Some 200\<rparr>]"

section \<open>Credential store and verification service\<close>

text \<open>
  The Rust sources of the login backend (\<^verbatim>\<open>main/src/main.rs\<close>, \<^verbatim>\<open>main/src/db.rs\<close>) are
  not among the files; the README of the backend and its test script are. The
  definitions of this section follow the specification, sections 3, 4.1, 4.2 and 6.
\<close>

text \<open>
  Modelled from the spec: the Account of section 3 (\<^verbatim>\<open>db.rs\<close> is missing), with the
  attributes \<open>username\<close>, \<open>password\<close> (compared by exact equality), \<open>rank\<close> (a small
  positive integer) and \<open>email\<close>.
\<close>

record Account =
  username :: string
  password :: string
  rank :: nat
  email :: string

text \<open>
  Modelled from the spec: the sanitized projection of an Account that a result
  carries (the \<^verbatim>\<open>data\<close> object of \<^verbatim>\<open>/search_user\<close>; \<^verbatim>\<open>main.rs\<close> is missing), with
  \<open>username\<close>, \<open>rank\<close> and \<open>email\<close>.
\<close>

record UserData =
  data_username :: string
  data_rank :: nat
  data_email :: string

text \<open>
  Modelled from the spec: the Verification Result of section 3, as section 6 and the
  README write it (\<^verbatim>\<open>main.rs\<close> is missing): the flag, a message, and the data or null.
\<close>

record VerificationResult =
  found :: bool
  message :: string
  data :: "UserData option"

text \<open>
  Modelled from the spec: the projection "\<open>username\<close>, \<open>rank\<close>, \<open>email\<close>, never the
  password" of a stored Account (\<^verbatim>\<open>main.rs\<close> is missing).
\<close>

definition sanitize :: "Account \<Rightarrow> UserData" where
  "sanitize a = \<lparr>data_username = username a, data_rank = rank a, data_email = email a\<rparr>"

text \<open>
  Modelled from the spec: \<^verbatim>\<open>find_by_username(username) -> Option<Account>\<close> of section
  4.1 (\<^verbatim>\<open>db.rs\<close> is missing), an exact, case-sensitive lookup in the table of accounts;
  absence is the empty result.
\<close>

definition find_by_username :: "Account list \<Rightarrow> string \<Rightarrow> Account option" where
  "find_by_username store u = List.find (\<lambda>a. username a = u) store"

text \<open>
  Modelled from the spec: the failure response of section 6 (\<^verbatim>\<open>main.rs\<close> is missing),
  \<^verbatim>\<open>{"success": false, "message": "Invalid credentials", "data": null}\<close>.
\<close>

definition invalid_credentials :: VerificationResult where
  "invalid_credentials = \<lparr>found = False, message = ''Invalid credentials'', data = None\<rparr>"

text \<open>
  Modelled from the spec: \<^verbatim>\<open>verify(username, password)\<close> of section 4.2 (the handler of
  \<^verbatim>\<open>/search_user\<close> in \<^verbatim>\<open>main.rs\<close> is missing). It looks the account up by username;
  if it is absent, or present with another password, the result is the generic
  failure; if it is present and the password matches exactly, the result is
  \<^verbatim>\<open>"User found"\<close> with the sanitized projection.
\<close>

definition verify :: "Account list \<Rightarrow> string \<Rightarrow> string \<Rightarrow> VerificationResult" where
  "verify store u p =
     (case find_by_username store u of
        None \<Rightarrow> invalid_credentials
      | Some a \<Rightarrow>
          if password a = p
          then \<lparr>found = True, message = ''User found'', data = Some (sanitize a)\<rparr>
          else invalid_credentials)"

text \<open>
  Modelled from the spec: the error of \<^verbatim>\<open>initialize()\<close> in sections 4.1 and 7
  (\<^verbatim>\<open>db.rs\<close> is missing).
\<close>

datatype store_error = StorageUnavailable

text \<open>
  Modelled from the spec: the backing medium of the store (\<^verbatim>\<open>db.rs\<close> is missing):
  whether it can be opened and written, and the Account table, \<open>None\<close> while the
  table has not been created.
\<close>

record medium =
  writable :: bool
  users :: "Account list option"

text \<open>
  Modelled from the spec: the default account of the bootstrap (\<^verbatim>\<open>db.rs\<close> and
  \<^verbatim>\<open>tempData/defaultAdmin.jsonc\<close> are missing), with the fields of section 8 and of
  the README.
\<close>

definition default_account :: Account where
  "default_account =
     \<lparr>username = ''admin'', password = ''admin123'', rank = 1, email = ''admin@example.com''\<rparr>"

text \<open>
  Modelled from the spec: \<^verbatim>\<open>initialize()\<close> of section 4.1 (\<^verbatim>\<open>db.rs\<close> is missing). It
  fails with \<open>StorageUnavailable\<close> if the medium cannot be opened or written;
  otherwise it creates the Account table if absent and inserts the default account
  if and only if the table is empty.
\<close>

definition initialize :: "medium \<Rightarrow> store_error + medium" where
  "initialize m =
     (if \<not> writable m then Inl StorageUnavailable
      else (let table = (case users m of None \<Rightarrow> [] | Some t \<Rightarrow> t)
            in Inr (m\<lparr>users := Some (if table = [] then [default_account] else table)\<rparr>)))"

text \<open>
  Modelled from the spec: "running \<^verbatim>\<open>initialize()\<close> twice, a third time" of section 8
  (\<^verbatim>\<open>db.rs\<close> is missing): \<open>n\<close> runs, one after the other, each on the medium the run
  before it left.
\<close>

fun initialize_times :: "nat \<Rightarrow> medium \<Rightarrow> store_error + medium" where
  "initialize_times 0 m = Inr m"
| "initialize_times (Suc n) m =
     (case initialize m of
        Inl e \<Rightarrow> Inl e
      | Inr m' \<Rightarrow> initialize_times n m')"

section \<open>Theorems\<close>

subsection \<open>Permissions\<close>

text \<open>
  C9. The role \<^verbatim>\<open>'admin'\<close> is granted every permission: \<open>canAccess\<close> returns
  true for every feature string (also one that is no key of the table, and one that
  names an inherited property), and \<open>hasPermission\<close> returns true for every required
  role and every list of required roles (also the empty list). An undefined user role
  is granted nothing: both functions return false for every feature and every
  required role.
\<close>

theorem admin_everything_undefined_nothing:
  "canAccess (Some Admin) feature = Inr True
   \<and> hasPermission (Some Admin) requiredRole = True
   \<and> canAccess None feature = Inr False
   \<and> hasPermission None requiredRole = False"
  by (simp add: canAccess_def hasPermission_def)

subsection \<open>Tag input\<close>

lemma last_dropWhile_keep: "dropWhile P xs \<noteq> [] \<Longrightarrow> last (dropWhile P xs) = last xs"
  by (induction xs) (auto split: if_splits)

lemma trim_by_ends:
  assumes "trim_by ws s \<noteq> []"
  shows "\<not> ws (hd (trim_by ws s)) \<and> \<not> ws (last (trim_by ws s))"
proof -
  let ?d = "dropWhile ws s"
  let ?e = "dropWhile ws (rev ?d)"
  have e: "?e \<noteq> []" using assms by (simp add: trim_by_def)
  have d: "?d \<noteq> []"
  proof
    assume "?d = []"
    with e show False by simp
  qed
  have "\<not> ws (hd ?e)" using e by (rule hd_dropWhile)
  then have l: "\<not> ws (last (trim_by ws s))"
    using e by (simp add: trim_by_def last_rev)
  have "hd (trim_by ws s) = last ?e" using e by (simp add: trim_by_def hd_rev)
  also have "\<dots> = last (rev ?d)"
    using e by (rule last_dropWhile_keep)
  also have "\<dots> = hd ?d" using d by (simp add: last_rev)
  finally have "hd (trim_by ws s) = hd ?d" .
  moreover have "\<not> ws (hd ?d)" using d by (rule hd_dropWhile)
  ultimately show ?thesis using l by simp
qed

lemma split_comma_nonempty: "split_comma s \<noteq> []"
  by (induction s) (auto split: list.splits)

lemma sublist_trim_by: "sublist (trim_by ws s) s"
proof -
  have "sublist (dropWhile ws (rev (dropWhile ws s))) (rev (dropWhile ws s))"
    by (rule sublist_dropWhile)
  then have "sublist (trim_by ws s) (dropWhile ws s)"
    by (simp add: trim_by_def sublist_rev_left)
  moreover have "sublist (dropWhile ws s) s"
    by (rule sublist_dropWhile)
  ultimately show ?thesis
    by (rule sublist_order.order.trans)
qed

lemma split_comma_pieces:
  "split_comma s = p # ps \<Longrightarrow> prefix p s \<and> (\<forall>q \<in> set ps. sublist q s)"
proof (induction s arbitrary: p ps)
  case Nil
  then show ?case by simp
next
  case (Cons c cs)
  obtain r rs where r: "split_comma cs = r # rs"
    using split_comma_nonempty [of cs] by (cases "split_comma cs") auto
  from Cons.IH [OF r] have ih: "prefix r cs" "\<forall>q \<in> set rs. sublist q cs"
    by simp_all
  show ?case
  proof (cases "c = 0x2C")
    case True
    with Cons.prems r have "p = []" "ps = r # rs" by simp_all
    with ih show ?thesis by (auto simp: sublist_Cons_right)
  next
    case False
    with Cons.prems r have "p = c # r" "ps = rs" by simp_all
    with ih show ?thesis by (auto simp: sublist_Cons_right)
  qed
qed

lemma split_comma_sublist: "q \<in> set (split_comma s) \<Longrightarrow> sublist q s"
  using split_comma_pieces [of s] split_comma_nonempty [of s]
  by (cases "split_comma s") auto

lemma lower_code_nonempty: "lower_code c \<noteq> []"
  by (simp add: lower_code_def)

lemma lower_code_hd: "\<not> rust_whitespace c \<Longrightarrow> \<not> rust_whitespace (hd (lower_code c))"
  by (auto simp: lower_code_def rust_whitespace_def)

lemma lower_code_last: "\<not> rust_whitespace c \<Longrightarrow> \<not> rust_whitespace (last (lower_code c))"
  by (auto simp: lower_code_def rust_whitespace_def)

lemma lower_code_idem: "concat (map lower_code (lower_code c)) = lower_code c"
  by (auto simp: lower_code_def)

lemma sample_to_lowercase_append:
  "sample_to_lowercase (xs @ ys) = sample_to_lowercase xs @ sample_to_lowercase ys"
  by (simp add: sample_to_lowercase_def)

lemma sample_to_lowercase_contract: "to_lowercase_contract sample_to_lowercase"
proof -
  have e: "(sample_to_lowercase s = []) = (s = [])" for s
    by (cases s) (simp_all add: sample_to_lowercase_def lower_code_nonempty)
  have h: "\<not> rust_whitespace (hd (sample_to_lowercase s))"
    if "s \<noteq> [] \<and> \<not> rust_whitespace (hd s)" for s
    using that by (cases s) (simp_all add: sample_to_lowercase_def lower_code_nonempty lower_code_hd)
  have l: "\<not> rust_whitespace (last (sample_to_lowercase s))"
    if "s \<noteq> [] \<and> \<not> rust_whitespace (last s)" for s
  proof -
    from that obtain ys y where s: "s = ys @ [y]" by (cases s rule: rev_cases) auto
    with that have "\<not> rust_whitespace y" by simp
    then show ?thesis
      unfolding s by (simp add: sample_to_lowercase_def lower_code_nonempty lower_code_last)
  qed
  have i: "sample_to_lowercase (sample_to_lowercase s) = sample_to_lowercase s" for s
  proof (induction s)
    case Nil
    then show ?case by (simp add: sample_to_lowercase_def)
  next
    case (Cons c cs)
    have "sample_to_lowercase (c # cs) = lower_code c @ sample_to_lowercase cs"
      by (simp add: sample_to_lowercase_def)
    moreover have "sample_to_lowercase (lower_code c) = lower_code c"
      by (simp add: sample_to_lowercase_def lower_code_idem)
    ultimately show ?case
      using Cons.IH by (simp add: sample_to_lowercase_append)
  qed
  show ?thesis
    unfolding to_lowercase_contract_def using e h l i by blast
qed

text \<open>
  C10. For every input text, the empty one included, every tag the React editor
  keeps is non-empty and neither starts nor ends with whitespace, and it is a
  contiguous piece of the input as typed: the editor does not change case, and
  \<^verbatim>\<open>Pottery, Ancient\<close> keeps its capitals. With a \<^verbatim>\<open>to_lowercase\<close> that meets
  \<open>to_lowercase_contract\<close>, every tag \<open>normalize_tags\<close> returns is non-empty, neither
  starts nor ends with whitespace and is in lower case, and the command is the same
  split, trim and filter followed by \<^verbatim>\<open>to_lowercase\<close>. The empty text gives no tag
  in either. Whitespace is what the \<^verbatim>\<open>trim\<close> of the language strips.
\<close>

theorem tags_trimmed_nonempty:
  "(\<forall>t \<in> set (onChange_editTags tagsStr).
      t \<noteq> [] \<and> \<not> js_whitespace (hd t) \<and> \<not> js_whitespace (last t) \<and> sublist t tagsStr)
   \<and> onChange_editTags [] = []
   \<and> onChange_editTags (codes ''Pottery, Ancient'') = [codes ''Pottery'', codes ''Ancient'']
   \<and> (to_lowercase_contract to_lowercase \<longrightarrow>
        (\<forall>t \<in> set (normalize_tags to_lowercase input).
            t \<noteq> [] \<and> \<not> rust_whitespace (hd t) \<and> \<not> rust_whitespace (last t)
            \<and> to_lowercase t = t)
        \<and> normalize_tags to_lowercase [] = []
        \<and> normalize_tags to_lowercase input =
            map to_lowercase
              (filter (\<lambda>s. s \<noteq> []) (map (trim_by rust_whitespace) (split_comma input))))"
proof -
  have react: "t \<noteq> [] \<and> \<not> js_whitespace (hd t) \<and> \<not> js_whitespace (last t) \<and> sublist t tagsStr"
    if "t \<in> set (onChange_editTags tagsStr)" for t
  proof -
    from that obtain p where p: "p \<in> set (split_comma tagsStr)" "t = trim_by js_whitespace p" "t \<noteq> []"
      by (auto simp: onChange_editTags_def)
    have "sublist t p" using p(2) by (simp add: sublist_trim_by)
    moreover have "sublist p tagsStr" using p(1) by (rule split_comma_sublist)
    ultimately have "sublist t tagsStr" by (rule sublist_order.order.trans)
    with trim_by_ends [of js_whitespace p] p show ?thesis by simp
  qed
  then have r1: "\<forall>t \<in> set (onChange_editTags tagsStr).
      t \<noteq> [] \<and> \<not> js_whitespace (hd t) \<and> \<not> js_whitespace (last t) \<and> sublist t tagsStr"
    by blast
  have e1: "onChange_editTags [] = []"
    by (simp add: onChange_editTags_def trim_by_def)
  have ex1: "onChange_editTags (codes ''Pottery, Ancient'') = [codes ''Pottery'', codes ''Ancient'']"
    by (simp add: onChange_editTags_def trim_by_def js_whitespace_def codes_def)
  have e2: "normalize_tags to_lowercase [] = filter (\<lambda>s. s \<noteq> []) [to_lowercase []]"
    by (simp add: normalize_tags_def trim_by_def)
  have rust: "(\<forall>t \<in> set (normalize_tags to_lowercase input).
            t \<noteq> [] \<and> \<not> rust_whitespace (hd t) \<and> \<not> rust_whitespace (last t)
            \<and> to_lowercase t = t)
        \<and> normalize_tags to_lowercase [] = []
        \<and> normalize_tags to_lowercase input =
            map to_lowercase
              (filter (\<lambda>s. s \<noteq> []) (map (trim_by rust_whitespace) (split_comma input)))"
    if c: "to_lowercase_contract to_lowercase"
  proof -
    from c have empty: "(to_lowercase s = []) = (s = [])" for s
      by (simp add: to_lowercase_contract_def)
    from c have first: "\<not> rust_whitespace (hd (to_lowercase s))"
      if "s \<noteq> []" "\<not> rust_whitespace (hd s)" for s
      using that by (simp add: to_lowercase_contract_def)
    from c have final: "\<not> rust_whitespace (last (to_lowercase s))"
      if "s \<noteq> []" "\<not> rust_whitespace (last s)" for s
      using that by (simp add: to_lowercase_contract_def)
    from c have idem: "to_lowercase (to_lowercase s) = to_lowercase s" for s
      by (simp add: to_lowercase_contract_def)
    have each: "t \<noteq> [] \<and> \<not> rust_whitespace (hd t) \<and> \<not> rust_whitespace (last t)
        \<and> to_lowercase t = t"
      if "t \<in> set (normalize_tags to_lowercase input)" for t
    proof -
      from that obtain p where p: "t = to_lowercase (trim_by rust_whitespace p)" "t \<noteq> []"
        by (auto simp: normalize_tags_def)
      then have ne: "trim_by rust_whitespace p \<noteq> []" by (simp add: empty)
      from trim_by_ends [OF ne] have
        "\<not> rust_whitespace (hd (trim_by rust_whitespace p))"
        "\<not> rust_whitespace (last (trim_by rust_whitespace p))"
        by simp_all
      with ne have "\<not> rust_whitespace (hd t)" "\<not> rust_whitespace (last t)"
        unfolding p(1) by (simp_all add: first final)
      moreover have "to_lowercase t = t" unfolding p(1) by (rule idem)
      ultimately show ?thesis using p(2) by simp
    qed
    have none: "normalize_tags to_lowercase [] = []"
      by (simp add: e2 empty)
    have swap: "normalize_tags to_lowercase input =
            map to_lowercase
              (filter (\<lambda>s. s \<noteq> []) (map (trim_by rust_whitespace) (split_comma input)))"
      by (simp add: normalize_tags_def filter_map comp_def empty)
    from each none swap show ?thesis by blast
  qed
  then have r2: "to_lowercase_contract to_lowercase \<longrightarrow>
        (\<forall>t \<in> set (normalize_tags to_lowercase input).
            t \<noteq> [] \<and> \<not> rust_whitespace (hd t) \<and> \<not> rust_whitespace (last t)
            \<and> to_lowercase t = t)
        \<and> normalize_tags to_lowercase [] = []
        \<and> normalize_tags to_lowercase input =
            map to_lowercase
              (filter (\<lambda>s. s \<noteq> []) (map (trim_by rust_whitespace) (split_comma input)))"
    by (rule impI)
  show ?thesis
    by (intro conjI; fact r1 e1 ex1 r2)
qed


theorem tags_trimmed_nonempty_witness:
  "codes ''Bowl'' \<in> set (onChange_editTags (codes '' Bowl ,, clay''))
   \<and> codes ''Bowl'' \<noteq> []
   \<and> \<not> js_whitespace (hd (codes ''Bowl'')) \<and> \<not> js_whitespace (last (codes ''Bowl''))
   \<and> sublist (codes ''Bowl'') (codes '' Bowl ,, clay'')
   \<and> to_lowercase_contract sample_to_lowercase
   \<and> codes ''bowl'' \<in> set (normalize_tags sample_to_lowercase (codes '' Bowl ,, clay''))
   \<and> codes ''bowl'' \<noteq> []
   \<and> \<not> rust_whitespace (hd (codes ''bowl'')) \<and> \<not> rust_whitespace (last (codes ''bowl''))
   \<and> sample_to_lowercase (codes ''bowl'') = codes ''bowl''
   \<and> normalize_tags sample_to_lowercase [0x2003, 0x130, 0x20, 0x2C, 0x3000] = [[0x69, 0x307]]"
proof -
  let ?in = "codes '' Bowl ,, clay''"
  have m1: "codes ''Bowl'' \<in> set (onChange_editTags ?in)"
    by (simp add: onChange_editTags_def trim_by_def js_whitespace_def codes_def)
  have m2: "codes ''bowl'' \<in> set (normalize_tags sample_to_lowercase ?in)"
    by (simp add: normalize_tags_def trim_by_def rust_whitespace_def codes_def
        sample_to_lowercase_def lower_code_def)
  have c: "to_lowercase_contract sample_to_lowercase"
    by (rule sample_to_lowercase_contract)
  have x: "normalize_tags sample_to_lowercase [0x2003, 0x130, 0x20, 0x2C, 0x3000] = [[0x69, 0x307]]"
    by (simp add: normalize_tags_def trim_by_def rust_whitespace_def
        sample_to_lowercase_def lower_code_def)
  note all = tags_trimmed_nonempty [where tagsStr = ?in and input = ?in
      and to_lowercase = sample_to_lowercase]
  from all have "\<forall>t \<in> set (onChange_editTags ?in).
      t \<noteq> [] \<and> \<not> js_whitespace (hd t) \<and> \<not> js_whitespace (last t) \<and> sublist t ?in"
    by (rule conjunct1)
  with m1 have p1: "codes ''Bowl'' \<noteq> [] \<and> \<not> js_whitespace (hd (codes ''Bowl''))
      \<and> \<not> js_whitespace (last (codes ''Bowl'')) \<and> sublist (codes ''Bowl'') ?in"
    by (rule bspec [rotated])
  from all c have "\<forall>t \<in> set (normalize_tags sample_to_lowercase ?in).
      t \<noteq> [] \<and> \<not> rust_whitespace (hd t) \<and> \<not> rust_whitespace (last t)
      \<and> sample_to_lowercase t = t"
    by blast
  with m2 have p2: "codes ''bowl'' \<noteq> [] \<and> \<not> rust_whitespace (hd (codes ''bowl''))
      \<and> \<not> rust_whitespace (last (codes ''bowl''))
      \<and> sample_to_lowercase (codes ''bowl'') = codes ''bowl''"
    by (rule bspec [rotated])
  from m1 p1 c m2 p2 x show ?thesis by blast
qed

subsection \<open>Readiness polling\<close>

declare poll_loop.simps [simp del]

lemma Invoke_WebRequest_elapsed: "fst (Invoke_WebRequest t r) \<le> t"
  by (auto simp: Invoke_WebRequest_def split: option.splits)

lemma poll_loop_bounds:
  "retryCount s \<le> maxRetries cfg \<Longrightarrow>
     probes (poll_loop cfg dependent s) + retryCount s \<le> probes s + maxRetries cfg
   \<and> clock (poll_loop cfg dependent s)
       \<le> clock s + (maxRetries cfg - retryCount s) * (interval cfg + probe_timeout cfg)"
proof (induction cfg dependent s rule: poll_loop.induct)
  case (1 cfg dependent s)
  show ?case
  proof (cases "retryCount s < maxRetries cfg")
    case False
    with "1.prems" show ?thesis by (simp add: poll_loop.simps [of cfg dependent s])
  next
    case True
    obtain elapsed response where
      p: "Invoke_WebRequest (probe_timeout cfg) (dependent (probes s)) = (elapsed, response)"
      by (cases "Invoke_WebRequest (probe_timeout cfg) (dependent (probes s))")
    have el: "elapsed \<le> probe_timeout cfg"
      using Invoke_WebRequest_elapsed [of "probe_timeout cfg" "dependent (probes s)"] p by simp
    from True obtain k where k: "maxRetries cfg - retryCount s = Suc k"
      "maxRetries cfg - (retryCount s + 1) = k"
      by (cases "maxRetries cfg - retryCount s") auto
    show ?thesis
    proof (cases "response = StatusCode 200")
      case yes: True
      with True p el k show ?thesis
        by (simp add: poll_loop.simps [of cfg dependent s])
    next
      case no: False
      let ?s' = "s\<lparr>clock := clock s + elapsed + interval cfg,
                     probes := probes s + 1,
                     retryCount := retryCount s + 1\<rparr>"
      have ih: "probes (poll_loop cfg dependent ?s') + retryCount ?s' \<le> probes ?s' + maxRetries cfg
         \<and> clock (poll_loop cfg dependent ?s')
             \<le> clock ?s' + (maxRetries cfg - retryCount ?s') * (interval cfg + probe_timeout cfg)"
        using "1.IH" [OF True p [symmetric] no] True by simp
      have eq: "poll_loop cfg dependent s = poll_loop cfg dependent ?s'"
        using True p no by (simp add: poll_loop.simps [of cfg dependent s])
      from ih el k show ?thesis
        unfolding eq by simp
    qed
  qed
qed


lemma poll_loop_never_ready:
  "retryCount s \<le> maxRetries cfg \<Longrightarrow>
   (\<forall>i. probes s \<le> i \<and> i < probes s + (maxRetries cfg - retryCount s) \<longrightarrow>
        snd (Invoke_WebRequest (probe_timeout cfg) (dependent i)) \<noteq> StatusCode 200) \<Longrightarrow>
     ollamaReady (poll_loop cfg dependent s) = ollamaReady s
   \<and> retryCount (poll_loop cfg dependent s) = maxRetries cfg
   \<and> probes (poll_loop cfg dependent s) = probes s + (maxRetries cfg - retryCount s)
   \<and> clock s + (maxRetries cfg - retryCount s) * interval cfg
       \<le> clock (poll_loop cfg dependent s)"
proof (induction cfg dependent s rule: poll_loop.induct)
  case (1 cfg dependent s)
  show ?case
  proof (cases "retryCount s < maxRetries cfg")
    case False
    with "1.prems" show ?thesis by (simp add: poll_loop.simps [of cfg dependent s])
  next
    case True
    obtain elapsed response where
      p: "Invoke_WebRequest (probe_timeout cfg) (dependent (probes s)) = (elapsed, response)"
      by (cases "Invoke_WebRequest (probe_timeout cfg) (dependent (probes s))")
    from True obtain k where k: "maxRetries cfg - retryCount s = Suc k"
      "maxRetries cfg - (retryCount s + 1) = k"
      by (cases "maxRetries cfg - retryCount s") auto
    have no: "response \<noteq> StatusCode 200"
      using "1.prems"(2) [rule_format, of "probes s"] p k by simp
    let ?s' = "s\<lparr>clock := clock s + elapsed + interval cfg,
                   probes := probes s + 1,
                   retryCount := retryCount s + 1\<rparr>"
    have later: "\<forall>i. probes ?s' \<le> i \<and> i < probes ?s' + (maxRetries cfg - retryCount ?s') \<longrightarrow>
        snd (Invoke_WebRequest (probe_timeout cfg) (dependent i)) \<noteq> StatusCode 200"
      using "1.prems"(2) k by simp
    have le: "retryCount ?s' \<le> maxRetries cfg" using True by simp
    note ih = "1.IH" [OF True p [symmetric] no le later]
    have eq: "poll_loop cfg dependent s = poll_loop cfg dependent ?s'"
      using True p no by (simp add: poll_loop.simps [of cfg dependent s])
    from ih k show ?thesis
      unfolding eq by simp
  qed
qed


text \<open>
  C4. The polling loop is a total function (its termination is proved with the
  definition). No probe takes longer than its timeout. Whatever the dependent does,
  the loop sends at most \<open>maxRetries\<close> probes and
  the wait is over within the first delay plus \<open>maxRetries\<close> intervals plus at most
  one probe timeout per probe. If no probe among the first \<open>maxRetries\<close> answers 200
  in time, the wait ends \<open>Failed\<close> after exactly \<open>maxRetries\<close> probes, not before
  \<open>maxRetries\<close> intervals have passed. With the script's constants: 30 probes, 2 s
  apart, each cut off after 2 s.
\<close>

theorem polling_is_bounded:
  "fst (Invoke_WebRequest (probe_timeout cfg) r) \<le> probe_timeout cfg
   \<and> probes (snd (wait_for_ollama cfg dependent)) \<le> maxRetries cfg
   \<and> clock (snd (wait_for_ollama cfg dependent))
       \<le> initial_delay cfg + maxRetries cfg * interval cfg + maxRetries cfg * probe_timeout cfg
   \<and> ((\<forall>i < maxRetries cfg.
          snd (Invoke_WebRequest (probe_timeout cfg) (dependent i)) \<noteq> StatusCode 200) \<longrightarrow>
        fst (wait_for_ollama cfg dependent) = Failed
        \<and> probes (snd (wait_for_ollama cfg dependent)) = maxRetries cfg
        \<and> retryCount (snd (wait_for_ollama cfg dependent)) = maxRetries cfg
        \<and> initial_delay cfg + maxRetries cfg * interval cfg
            \<le> clock (snd (wait_for_ollama cfg dependent)))"
proof -
  let ?s0 = "\<lparr>retryCount = 0, ollamaReady = False, clock = initial_delay cfg, probes = 0\<rparr>"
  have w: "wait_for_ollama cfg dependent =
      (if \<not> ollamaReady (poll_loop cfg dependent ?s0) then Failed else Ready,
       poll_loop cfg dependent ?s0)"
    by (simp add: wait_for_ollama_def Let_def)
  have b: "probes (poll_loop cfg dependent ?s0) + retryCount ?s0 \<le> probes ?s0 + maxRetries cfg
     \<and> clock (poll_loop cfg dependent ?s0)
         \<le> clock ?s0 + (maxRetries cfg - retryCount ?s0) * (interval cfg + probe_timeout cfg)"
    by (rule poll_loop_bounds) simp
  have n: "ollamaReady (poll_loop cfg dependent ?s0) = ollamaReady ?s0
     \<and> retryCount (poll_loop cfg dependent ?s0) = maxRetries cfg
     \<and> probes (poll_loop cfg dependent ?s0) = probes ?s0 + (maxRetries cfg - retryCount ?s0)
     \<and> clock ?s0 + (maxRetries cfg - retryCount ?s0) * interval cfg
         \<le> clock (poll_loop cfg dependent ?s0)"
    if "\<forall>i < maxRetries cfg.
          snd (Invoke_WebRequest (probe_timeout cfg) (dependent i)) \<noteq> StatusCode 200"
    using that by (intro poll_loop_never_ready) simp_all
  from b have b1: "probes (snd (wait_for_ollama cfg dependent)) \<le> maxRetries cfg"
    by (simp add: w)
  from b have b2: "clock (snd (wait_for_ollama cfg dependent))
       \<le> initial_delay cfg + maxRetries cfg * interval cfg + maxRetries cfg * probe_timeout cfg"
    by (simp add: w algebra_simps)
  from n have b3: "(\<forall>i < maxRetries cfg.
          snd (Invoke_WebRequest (probe_timeout cfg) (dependent i)) \<noteq> StatusCode 200) \<longrightarrow>
        fst (wait_for_ollama cfg dependent) = Failed
        \<and> probes (snd (wait_for_ollama cfg dependent)) = maxRetries cfg
        \<and> retryCount (snd (wait_for_ollama cfg dependent)) = maxRetries cfg
        \<and> initial_delay cfg + maxRetries cfg * interval cfg
            \<le> clock (snd (wait_for_ollama cfg dependent))"
    by (simp add: w)
  have b0: "fst (Invoke_WebRequest (probe_timeout cfg) r) \<le> probe_timeout cfg"
    by (rule Invoke_WebRequest_elapsed)
  show ?thesis by (intro conjI; fact b0 b1 b2 b3)
qed

theorem polling_is_bounded_witness:
  "fst (wait_for_ollama script_config (\<lambda>i. \<lparr>latency = 5000, status = Some 200\<rparr>)) = Failed
   \<and> probes (snd (wait_for_ollama script_config (\<lambda>i. \<lparr>latency = 5000, status = Some 200\<rparr>))) = 30
   \<and> 65000 \<le> clock (snd (wait_for_ollama script_config (\<lambda>i. \<lparr>latency = 5000, status = Some 200\<rparr>)))
   \<and> clock (snd (wait_for_ollama script_config (\<lambda>i. \<lparr>latency = 5000, status = Some 200\<rparr>)))
       \<le> 125000"
proof -
  have h: "\<forall>i < maxRetries script_config.
      snd (Invoke_WebRequest (probe_timeout script_config)
             ((\<lambda>i. \<lparr>latency = 5000, status = Some 200\<rparr>) i)) \<noteq> StatusCode 200"
    by (simp add: Invoke_WebRequest_def script_config_def)
  from polling_is_bounded [where cfg = script_config
      and dependent = "\<lambda>i. \<lparr>latency = 5000, status = Some 200\<rparr>"] h
  show ?thesis
    by (simp add: script_config_def)
qed

subsection \<open>Shutdown cleanup\<close>

lemma stop_server_running:
  "running (stop_server started handle sys) =
     filter (\<lambda>p. \<not> hit started handle p) (running sys)"
  by (cases handle)
     (auto simp: stop_server_def stop_children_def Stop_Process_Force_def hit_def Let_def
        intro!: filter_cong)

lemma stop_server_sent:
  "\<exists>new. sent (stop_server started handle sys) = sent sys @ new \<and> fst ` set new \<subseteq> {Forced}"
  by (cases handle)
     (auto simp: stop_server_def stop_children_def Stop_Process_Force_def Let_def)

text \<open>
  C5, as the code has it. The cleanup stops each launched process with a forced
  stop at once, and then, again by force, the processes that report the launched
  process as their parent. Exactly those processes are gone afterwards; every other
  process keeps running. Every request the cleanup sends is a forced one: no
  graceful stop is tried, and nothing waits for a grace period.
\<close>

theorem cleanup_forces_direct_children_only:
  "running (cleanup startBackend backendProcess startFrontend frontendProcess sys) =
     filter (\<lambda>p. \<not> hit startBackend backendProcess p \<and> \<not> hit startFrontend frontendProcess p)
       (running sys)
   \<and> (\<forall>x \<in> set (drop (length (sent sys))
          (sent (cleanup startBackend backendProcess startFrontend frontendProcess sys))).
        fst x = Forced)
   \<and> take (length (sent sys))
        (sent (cleanup startBackend backendProcess startFrontend frontendProcess sys)) = sent sys"
proof -
  let ?mid = "stop_server startBackend backendProcess sys"
  obtain n1 where n1: "sent ?mid = sent sys @ n1" "fst ` set n1 \<subseteq> {Forced}"
    using stop_server_sent [of startBackend backendProcess sys] by blast
  obtain n2 where n2: "sent (stop_server startFrontend frontendProcess ?mid) = sent ?mid @ n2"
    "fst ` set n2 \<subseteq> {Forced}"
    using stop_server_sent [of startFrontend frontendProcess ?mid] by blast
  have s: "sent (cleanup startBackend backendProcess startFrontend frontendProcess sys)
      = sent sys @ n1 @ n2"
    using n1 n2 by (simp add: cleanup_def)
  have r: "running (cleanup startBackend backendProcess startFrontend frontendProcess sys) =
     filter (\<lambda>p. \<not> hit startBackend backendProcess p \<and> \<not> hit startFrontend frontendProcess p)
       (running sys)"
    by (simp add: cleanup_def stop_server_running conj_commute)
  have f: "\<forall>x \<in> set (n1 @ n2). fst x = Forced"
    using n1(2) n2(2) by auto
  show ?thesis
    using r f by (simp add: s)
qed

theorem cleanup_forces_direct_children_only_witness:
  "running (cleanup False None True (Some 100) \<lparr>running = cargo_tree, sent = []\<rparr>)
     = [\<lparr>pid = 300, Parent_Id = Some 200\<rparr>]
   \<and> (Forced, 200) \<in> set (drop (length (sent \<lparr>running = cargo_tree, sent = []\<rparr>))
        (sent (cleanup False None True (Some 100) \<lparr>running = cargo_tree, sent = []\<rparr>)))
   \<and> fst (Forced, 200 :: nat) = Forced"
proof -
  let ?sys = "\<lparr>running = cargo_tree, sent = []\<rparr>"
  note all = cleanup_forces_direct_children_only [of False None True "Some 100" ?sys]
  from all have "running (cleanup False None True (Some 100) ?sys) =
     filter (\<lambda>p. \<not> hit False None p \<and> \<not> hit True (Some 100) p) (running ?sys)"
    by (rule conjunct1)
  then have r: "running (cleanup False None True (Some 100) ?sys)
      = [\<lparr>pid = 300, Parent_Id = Some 200\<rparr>]"
    by (simp add: hit_def cargo_tree_def)
  have m: "(Forced, 200) \<in> set (drop (length (sent ?sys))
        (sent (cleanup False None True (Some 100) ?sys)))"
    by (simp add: cleanup_def stop_server_def stop_children_def Stop_Process_Force_def
        cargo_tree_def Let_def)
  from all have "\<forall>x \<in> set (drop (length (sent ?sys))
        (sent (cleanup False None True (Some 100) ?sys))). fst x = Forced"
    by (rule conjunct2 [THEN conjunct1])
  with m have f: "fst (Forced, 200 :: nat) = Forced"
    by (rule bspec [rotated])
  from r m f show ?thesis by blast
qed

text \<open>
  C5, as the claim states it, fails on the tree three deep: after the cleanup of
  the frontend (100) the process 300, which 100 started through 200, still runs;
  and the two requests sent were both forced, the first of them to 100 itself.
\<close>

theorem teardown_counterexample:
  "spawned cargo_tree 100 300
   \<and> \<lparr>pid = 300, Parent_Id = Some 200\<rparr>
       \<in> set (running (cleanup False None True (Some 100) \<lparr>running = cargo_tree, sent = []\<rparr>))
   \<and> sent (cleanup False None True (Some 100) \<lparr>running = cargo_tree, sent = []\<rparr>)
       = [(Forced, 100), (Forced, 200)]"
proof -
  have "spawned cargo_tree 100 (pid \<lparr>pid = 200, Parent_Id = Some 100\<rparr>)"
    by (rule spawned.direct) (simp_all add: cargo_tree_def)
  then have "spawned cargo_tree 100 (pid \<lparr>pid = 300, Parent_Id = Some 200\<rparr>)"
    by (rule spawned.transitive) (simp_all add: cargo_tree_def)
  then have a: "spawned cargo_tree 100 300" by simp
  have b: "cleanup False None True (Some 100) \<lparr>running = cargo_tree, sent = []\<rparr>
      = \<lparr>running = [\<lparr>pid = 300, Parent_Id = Some 200\<rparr>], sent = [(Forced, 100), (Forced, 200)]\<rparr>"
    by (simp add: cleanup_def stop_server_def stop_children_def Stop_Process_Force_def
        cargo_tree_def Let_def)
  show ?thesis using a by (simp add: b)
qed

subsection \<open>Credential store and verification service\<close>

lemma find_by_username_present:
  "distinct (map username store) \<Longrightarrow> a \<in> set store \<Longrightarrow>
     find_by_username store (username a) = Some a"
  unfolding find_by_username_def
  by (induction store) (auto simp: image_iff)

lemma find_by_username_absent:
  "u \<notin> username ` set store \<Longrightarrow> find_by_username store u = None"
  unfolding find_by_username_def
  by (induction store) auto

lemma find_by_username_Some:
  "find_by_username store u = Some a \<Longrightarrow> a \<in> set store \<and> username a = u"
  unfolding find_by_username_def
  by (induction store) (auto split: if_splits)

lemma verify_data_same:
  "map sanitize store = map sanitize store' \<Longrightarrow>
   found (verify store u p) \<Longrightarrow> found (verify store' u p') \<Longrightarrow>
   data (verify store u p) = data (verify store' u p')"
proof -
  assume eq: "map sanitize store = map sanitize store'"
  then have len: "length store = length store'" by (rule map_eq_imp_length_eq)
  from len eq have "map_option sanitize (find_by_username store u)
      = map_option sanitize (find_by_username store' u)"
  proof (induction store store' rule: list_induct2)
    case Nil
    then show ?case by simp
  next
    case (Cons x xs y ys)
    then have "sanitize x = sanitize y" by simp
    then have "username x = username y" by (simp add: sanitize_def)
    with Cons show ?case by (simp add: find_by_username_def)
  qed
  moreover assume "found (verify store u p)" "found (verify store' u p')"
  ultimately show ?thesis
    by (auto simp: verify_def invalid_credentials_def split: option.splits if_splits)
qed

lemma initialize_seeded:
  "writable m \<Longrightarrow> users m = Some t \<Longrightarrow> t \<noteq> [] \<Longrightarrow> initialize m = Inr m"
  by (simp add: initialize_def)

lemma initialize_times_seeded:
  "writable m \<Longrightarrow> users m = Some t \<Longrightarrow> t \<noteq> [] \<Longrightarrow> initialize_times n m = Inr m"
  by (induction n) (simp_all add: initialize_seeded)

text \<open>
  C1. In a store whose usernames are unique, for every stored account \<open>a\<close>:
  verifying its username with its password gives \<open>found = True\<close>, the message
  \<^verbatim>\<open>User found\<close> and the sanitized projection of \<open>a\<close>; verifying its username with
  any other password gives \<open>found = False\<close>; and verifying a username that is not in
  the store, with any password, gives \<open>found = False\<close> with the very same response
  as the wrong password, message included.
\<close>

theorem verify_correct:
  "distinct (map username store) \<Longrightarrow> a \<in> set store \<Longrightarrow>
     verify store (username a) (password a)
       = \<lparr>found = True, message = ''User found'', data = Some (sanitize a)\<rparr>
   \<and> (p' \<noteq> password a \<longrightarrow>
        verify store (username a) p'
          = \<lparr>found = False, message = ''Invalid credentials'', data = None\<rparr>)
   \<and> (u' \<notin> username ` set store \<longrightarrow>
        verify store u' q
          = \<lparr>found = False, message = ''Invalid credentials'', data = None\<rparr>)"
  by (simp add: verify_def find_by_username_present find_by_username_absent
      invalid_credentials_def)

theorem verify_correct_witness:
  "verify [default_account] ''admin'' ''admin123''
     = \<lparr>found = True, message = ''User found'',
        data = Some \<lparr>data_username = ''admin'', data_rank = 1,
                      data_email = ''admin@example.com''\<rparr>\<rparr>
   \<and> verify [default_account] ''admin'' ''wrong''
     = \<lparr>found = False, message = ''Invalid credentials'', data = None\<rparr>
   \<and> verify [default_account] ''nobody'' ''admin123''
     = \<lparr>found = False, message = ''Invalid credentials'', data = None\<rparr>"
proof -
  have h1: "distinct (map username [default_account])" by simp
  have h2: "default_account \<in> set [default_account]" by simp
  have h3: "''wrong'' \<noteq> password default_account" by (simp add: default_account_def)
  have h4: "''nobody'' \<notin> username ` set [default_account]" by (simp add: default_account_def)
  from verify_correct [OF h1 h2, of "''wrong''" "''nobody''" "''admin123''"] h3 h4
  show ?thesis by (simp add: default_account_def sanitize_def)
qed

text \<open>
  C6. A failed response carries no data. A successful response carries the
  sanitized projection of the account that matched and nothing else. The projection
  does not depend on the stored password: changing the password of an account leaves
  it as it was, and two stores that differ only in the passwords they hold answer
  every successful verification with the same data.
\<close>

theorem no_password_in_data:
  "(\<not> found (verify store u p) \<longrightarrow> data (verify store u p) = None)
   \<and> (found (verify store u p) \<longrightarrow>
        (\<exists>a \<in> set store. username a = u \<and> password a = p
            \<and> data (verify store u p) = Some (sanitize a)))
   \<and> sanitize (a\<lparr>password := x\<rparr>) = sanitize a
   \<and> (map sanitize store = map sanitize store' \<longrightarrow>
        found (verify store u p) \<longrightarrow> found (verify store' u p') \<longrightarrow>
        data (verify store u p) = data (verify store' u p'))"
proof -
  have a: "\<not> found (verify store u p) \<longrightarrow> data (verify store u p) = None"
    by (simp add: verify_def invalid_credentials_def split: option.splits)
  have b: "found (verify store u p) \<longrightarrow>
        (\<exists>a \<in> set store. username a = u \<and> password a = p
            \<and> data (verify store u p) = Some (sanitize a))"
    by (auto simp: verify_def invalid_credentials_def split: option.splits
        dest: find_by_username_Some)
  have c: "sanitize (a\<lparr>password := x\<rparr>) = sanitize a"
    by (simp add: sanitize_def)
  have d: "map sanitize store = map sanitize store' \<longrightarrow>
        found (verify store u p) \<longrightarrow> found (verify store' u p') \<longrightarrow>
        data (verify store u p) = data (verify store' u p')"
    using verify_data_same by blast
  show ?thesis by (intro conjI; fact a b c d)
qed

theorem no_password_in_data_witness:
  "found (verify [default_account] ''admin'' ''admin123'')
   \<and> found (verify [default_account\<lparr>password := ''hunter2''\<rparr>] ''admin'' ''hunter2'')
   \<and> data (verify [default_account] ''admin'' ''admin123'')
       = data (verify [default_account\<lparr>password := ''hunter2''\<rparr>] ''admin'' ''hunter2'')
   \<and> \<not> found (verify [default_account] ''admin'' ''wrong'')
   \<and> data (verify [default_account] ''admin'' ''wrong'') = None"
proof -
  let ?s = "[default_account]"
  let ?s' = "[default_account\<lparr>password := ''hunter2''\<rparr>]"
  have f1: "found (verify ?s ''admin'' ''admin123'')"
    by (simp add: verify_def find_by_username_def default_account_def)
  have f2: "found (verify ?s' ''admin'' ''hunter2'')"
    by (simp add: verify_def find_by_username_def default_account_def)
  have m: "map sanitize ?s = map sanitize ?s'"
    by (simp add: sanitize_def)
  have n: "\<not> found (verify ?s ''admin'' ''wrong'')"
    by (simp add: verify_def find_by_username_def default_account_def invalid_credentials_def)
  from no_password_in_data [where store = ?s and u = "''admin''" and p = "''admin123''"
      and store' = ?s' and p' = "''hunter2''"]
    m f1 f2
  have e: "data (verify ?s ''admin'' ''admin123'') = data (verify ?s' ''admin'' ''hunter2'')"
    by blast
  from no_password_in_data [where store = ?s and u = "''admin''" and p = "''wrong''"]
    n
  have d: "data (verify ?s ''admin'' ''wrong'') = None"
    by blast
  from f1 f2 e n d show ?thesis by blast
qed

text \<open>
  C3. On a medium that can be written, \<open>initialize\<close> on an empty store (no table yet,
  or an empty table) leaves exactly the default account; so does every number
  \<open>n > 0\<close> of runs in a row. On a store that holds an account already, any number
  of runs leaves the medium as it was: nothing is added and nothing altered.
\<close>

theorem seeding_idempotent:
  "initialize \<lparr>writable = True, users = None\<rparr>
     = Inr \<lparr>writable = True, users = Some [default_account]\<rparr>
   \<and> initialize \<lparr>writable = True, users = Some []\<rparr>
     = Inr \<lparr>writable = True, users = Some [default_account]\<rparr>
   \<and> (0 < n \<longrightarrow>
        initialize_times n \<lparr>writable = True, users = None\<rparr>
          = Inr \<lparr>writable = True, users = Some [default_account]\<rparr>)
   \<and> (writable m \<and> users m = Some t \<and> t \<noteq> [] \<longrightarrow> initialize_times n m = Inr m)"
proof -
  have a: "initialize \<lparr>writable = True, users = None\<rparr>
     = Inr \<lparr>writable = True, users = Some [default_account]\<rparr>"
    by (simp add: initialize_def)
  have b: "initialize \<lparr>writable = True, users = Some []\<rparr>
     = Inr \<lparr>writable = True, users = Some [default_account]\<rparr>"
    by (simp add: initialize_def)
  have c: "0 < n \<longrightarrow>
        initialize_times n \<lparr>writable = True, users = None\<rparr>
          = Inr \<lparr>writable = True, users = Some [default_account]\<rparr>"
  proof
    assume "0 < n"
    then obtain k where k: "n = Suc k" by (cases n) auto
    show "initialize_times n \<lparr>writable = True, users = None\<rparr>
          = Inr \<lparr>writable = True, users = Some [default_account]\<rparr>"
      unfolding k by (simp add: a initialize_times_seeded)
  qed
  have d: "writable m \<and> users m = Some t \<and> t \<noteq> [] \<longrightarrow> initialize_times n m = Inr m"
    by (simp add: initialize_times_seeded)
  show ?thesis by (intro conjI; fact a b c d)
qed


theorem seeding_idempotent_witness:
  "(0::nat) < 3
   \<and> initialize_times 3 \<lparr>writable = True, users = None\<rparr>
     = Inr \<lparr>writable = True, users = Some [default_account]\<rparr>
   \<and> initialize_times 2 \<lparr>writable = True, users = Some [default_account]\<rparr>
     = Inr \<lparr>writable = True, users = Some [default_account]\<rparr>"
proof -
  have h: "(0::nat) < 3" by simp
  note all = seeding_idempotent [where n = 3]
  from all h have a: "initialize_times 3 \<lparr>writable = True, users = None\<rparr>
     = Inr \<lparr>writable = True, users = Some [default_account]\<rparr>"
    by blast
  from seeding_idempotent [where n = 2
      and m = "\<lparr>writable = True, users = Some [default_account]\<rparr>" and t = "[default_account]"]
  have b: "initialize_times 2 \<lparr>writable = True, users = Some [default_account]\<rparr>
     = Inr \<lparr>writable = True, users = Some [default_account]\<rparr>"
    by simp
  from h a b show ?thesis by blast
qed

end
